theory Spec2Isabelle
  imports Main "HOL-Library.AList"
begin

section \<open>The Dask queue handler: \<open>dqm_server/queue_handlers/dask_handler.py\<close>\<close>

subsection \<open>Python values, dictionaries and exceptions\<close>

text \<open>
  The handler looks at the values of a result dictionary in two ways only: it tests
  their truth (\<open>not tmp_data["success"]\<close>) and it renders them with \<open>%s\<close>, that is
  with \<open>str\<close>. \<open>PObj t s\<close> stands for any other Python object, with its truth value
  \<open>t\<close> and its rendering \<open>s\<close>.
\<close>

datatype pyval = PNone | PBool bool | PStr string | PObj bool string

fun truthy :: "pyval \<Rightarrow> bool" where
  "truthy PNone = False"
| "truthy (PBool b) = b"
| "truthy (PStr s) = (s \<noteq> [])"
| "truthy (PObj t s) = t"

fun py_str :: "pyval \<Rightarrow> string" where
  "py_str PNone = ''None''"
| "py_str (PBool b) = (if b then ''True'' else ''False'')"
| "py_str (PStr s) = s"
| "py_str (PObj t s) = s"

text \<open>
  A dictionary with string keys is an association list, read with \<open>map_of\<close>, written
  with \<open>AList.update\<close> (an existing key keeps its place, a new key goes to the end, as in
  an insertion-ordered Python dictionary) and iterated in list order.
\<close>

type_synonym pydict = "(string \<times> pyval) list"

text \<open>
  An exception is seen by the handler through three strings: the text of
  \<open>"".join(traceback.format_tb(e.__traceback__))\<close>, the name of its type and \<open>str(e)\<close>.
  Only instances of \<open>Exception\<close> are modelled, which is what \<open>except Exception\<close>
  catches; interpreter interrupts are outside the model.
\<close>

datatype py_exception = PyExc (exc_tb: string) (exc_type: string) (exc_str: string)

definition nl :: string where
  "nl = [CHR 0x0A]"

definition quoted :: "string \<Rightarrow> string" where
  "quoted k = [CHR 0x27] @ k @ [CHR 0x27]"

text \<open>
  \<open>d[k]\<close>: a missing key raises \<open>KeyError(k)\<close>, whose \<open>str\<close> is the quoted key. The
  first argument is the traceback text of the statement that does the lookup.
\<close>

definition getitem :: "string \<Rightarrow> pydict \<Rightarrow> string \<Rightarrow> py_exception + pyval" where
  "getitem tbtext d k =
     (case map_of d k of
        None \<Rightarrow> Inl (PyExc tbtext ''KeyError'' (quoted k))
      | Some v \<Rightarrow> Inr v)"

subsection \<open>Collaborators\<close>

text \<open>
  A future of the backend: what \<open>future.done()\<close> does (raise, or return a truth value)
  and what \<open>future.result()\<close> does (raise the exception of the computation, or return
  its result dictionary). The answers of a future do not change during a call of
  \<open>update\<close>; a result that is not a dictionary is outside the model.
\<close>

datatype future = Future (done_r: "py_exception + bool") (result_r: "py_exception + pydict")

text \<open>
  The journal lists, in order, the calls with an effect that the handler makes on its
  collaborators: \<open>future.result()\<close> on the future stored under a key,
  \<open>mongod_socket.add_page(tmp_data)\<close> for the entry under a key, and
  \<open>dask.submit(compute.computers[program], task)\<close> for a program and a task.
\<close>

datatype call = Call_result string | Call_add_page string pydict | Call_submit string pydict

fun pages_of :: "call list \<Rightarrow> pydict list" where
  "pages_of [] = []"
| "pages_of (Call_add_page key p # cs) = p # pages_of cs"
| "pages_of (c # cs) = pages_of cs"

subsection \<open>\<open>DaskNanny\<close>\<close>

text \<open>
  The fields \<open>queue\<close>, \<open>errors\<close> and \<open>logger\<close> are those of the class (\<open>logger\<close> is the
  list of messages passed to \<open>logger.info\<close>). \<open>mongod_socket\<close> is the behaviour of
  \<open>add_page\<close>, which is not part of these sources: given the pages the store has
  received so far and a page, it raises or returns a value. \<open>uuid4_r\<close> is the source of
  \<open>str(uuid.uuid4())\<close>: its \<open>i\<close>-th draw, with \<open>uuid_drawn\<close> counting the draws made.
\<close>

record DaskNanny =
  queue :: "(string \<times> future) list"
  errors :: "(string \<times> string) list"
  logger :: "string list"
  mongod_socket :: "pydict list \<Rightarrow> pydict \<Rightarrow> py_exception + pyval"
  journal :: "call list"
  uuid4_r :: "nat \<Rightarrow> string"
  uuid_drawn :: nat

text \<open>\<open>DaskNanny.add_future\<close> (lines 19 to 23).\<close>

definition add_future :: "future \<Rightarrow> DaskNanny \<Rightarrow> string \<times> DaskNanny" where
  "add_future fut n =
     (let uid = uuid4_r n (uuid_drawn n) in
      (uid, n\<lparr>uuid_drawn := Suc (uuid_drawn n),
              queue := AList.update uid fut (queue n),
              logger := logger n @ [''MONGO ADD: FUTURE '' @ uid]\<rparr>))"

text \<open>A sequence of \<open>add_future\<close> calls, returning the identifiers in call order.\<close>

fun add_futures :: "future list \<Rightarrow> DaskNanny \<Rightarrow> string list \<times> DaskNanny" where
  "add_futures [] n = ([], n)"
| "add_futures (fut # futs) n =
     (case add_future fut n of (uid, n') \<Rightarrow>
        (case add_futures futs n' of (uids, n'') \<Rightarrow> (uid # uids, n'')))"

text \<open>
  The message of the \<open>ValueError\<close> raised at line 32:
  \<open>"Computation (%s, %s) did not complete successfully!:\n%s\n" % (h, m, e)\<close>.
\<close>

definition failure_text :: "pyval \<Rightarrow> pyval \<Rightarrow> pyval \<Rightarrow> string" where
  "failure_text h m e =
     ''Computation ('' @ py_str h @ '', '' @ py_str m @ '') did not complete successfully!:''
       @ nl @ py_str e @ nl"

text \<open>
  The body of the \<open>try\<close> (lines 30 to 37) for the entry \<open>(key, fut)\<close>: the exception it
  raises, if any, and the state it leaves. \<open>tb l\<close> is the traceback text of an exception
  raised by the statement of \<open>update\<close> that starts at line \<open>l\<close>.
\<close>

definition try_body ::
  "(nat \<Rightarrow> string) \<Rightarrow> string \<Rightarrow> future \<Rightarrow> DaskNanny \<Rightarrow> py_exception option \<times> DaskNanny" where
  "try_body tb key fut n =
     (let n1 = n\<lparr>journal := journal n @ [Call_result key]\<rparr> in
      case result_r fut of
        Inl e \<Rightarrow> (Some e, n1)
      | Inr tmp_data \<Rightarrow>
         (case getitem (tb 31) tmp_data ''success'' of
            Inl e \<Rightarrow> (Some e, n1)
          | Inr s \<Rightarrow>
             if \<not> truthy s then
               (case getitem (tb 32) tmp_data ''molecule_hash'' of
                  Inl e \<Rightarrow> (Some e, n1)
                | Inr h \<Rightarrow>
                   (case getitem (tb 32) tmp_data ''modelchem'' of
                      Inl e \<Rightarrow> (Some e, n1)
                    | Inr m \<Rightarrow>
                       (case getitem (tb 32) tmp_data ''error'' of
                          Inl e \<Rightarrow> (Some e, n1)
                        | Inr er \<Rightarrow>
                           (Some (PyExc (tb 32) ''ValueError'' (failure_text h m er)), n1))))
             else
               (let n2 = n1\<lparr>journal := journal n1 @ [Call_add_page key tmp_data]\<rparr> in
                case mongod_socket n (pages_of (journal n1)) tmp_data of
                  Inl e \<Rightarrow> (Some e, n2)
                | Inr res \<Rightarrow>
                   (case getitem (tb 36) tmp_data ''molecule_hash'' of
                      Inl e \<Rightarrow> (Some e, n2)
                    | Inr h \<Rightarrow>
                       (case getitem (tb 36) tmp_data ''modelchem'' of
                          Inl e \<Rightarrow> (Some e, n2)
                        | Inr m \<Rightarrow>
                           (None, n2\<lparr>logger := logger n2 @
                              [''MONGO ADD: ('' @ py_str h @ '', '' @ py_str m @ '') - ''
                                 @ py_str res]\<rparr>))))))"

text \<open>The \<open>except Exception as e\<close> clause (lines 38 to 43).\<close>

definition error_message :: "py_exception \<Rightarrow> string" where
  "error_message e = exc_tb e @ exc_type e @ '':'' @ exc_str e"

definition except_clause :: "string \<Rightarrow> py_exception \<Rightarrow> DaskNanny \<Rightarrow> DaskNanny" where
  "except_clause key e n =
     n\<lparr>errors := AList.update key (error_message e) (errors n),
       logger := logger n @ [''MONGO ADD: ERROR'' @ nl @ error_message e]\<rparr>"

text \<open>The whole \<open>try\<close> statement for one finished entry (lines 29 to 43).\<close>

definition try_except :: "(nat \<Rightarrow> string) \<Rightarrow> string \<Rightarrow> future \<Rightarrow> DaskNanny \<Rightarrow> DaskNanny" where
  "try_except tb key fut n =
     (case try_body tb key fut n of
        (None, n') \<Rightarrow> n'
      | (Some e, n') \<Rightarrow> except_clause key e n')"

text \<open>
  The first loop (lines 27 to 45) over the items of \<open>self.queue\<close>, with \<open>del_keys\<close> as
  accumulator. An exception of \<open>future.done()\<close> is outside the \<open>try\<close> and leaves the loop.
\<close>

fun update_loop ::
  "(nat \<Rightarrow> string) \<Rightarrow> (string \<times> future) list \<Rightarrow> string list \<Rightarrow> DaskNanny
     \<Rightarrow> py_exception option \<times> string list \<times> DaskNanny" where
  "update_loop tb [] del_keys n = (None, del_keys, n)"
| "update_loop tb ((key, fut) # items) del_keys n =
     (case done_r fut of
        Inl e \<Rightarrow> (Some e, del_keys, n)
      | Inr d \<Rightarrow>
         if d then update_loop tb items (del_keys @ [key]) (try_except tb key fut n)
         else update_loop tb items del_keys n)"

text \<open>
  The second loop (lines 47 and 48): \<open>del self.queue[key]\<close> raises \<open>KeyError\<close> for a key
  that is not in the dictionary, and the deletions made before it stay.
\<close>

fun del_loop ::
  "(nat \<Rightarrow> string) \<Rightarrow> string list \<Rightarrow> (string \<times> future) list
     \<Rightarrow> py_exception option \<times> (string \<times> future) list" where
  "del_loop tb [] q = (None, q)"
| "del_loop tb (key # del_keys) q =
     (if key \<in> fst ` set q then del_loop tb del_keys (AList.delete key q)
      else (Some (PyExc (tb 48) ''KeyError'' (quoted key)), q))"

text \<open>
  \<open>DaskNanny.update\<close> (lines 25 to 48): \<open>None\<close> when it returns, \<open>Some e\<close> when it raises
  \<open>e\<close>, with the state it leaves in both cases.
\<close>

definition update :: "(nat \<Rightarrow> string) \<Rightarrow> DaskNanny \<Rightarrow> py_exception option \<times> DaskNanny" where
  "update tb n =
     (case update_loop tb (queue n) [] n of
        (Some e, del_keys, n') \<Rightarrow> (Some e, n')
      | (None, del_keys, n') \<Rightarrow>
         (case del_loop tb del_keys (queue n') of
            (r, q) \<Rightarrow> (r, n'\<lparr>queue := q\<rparr>)))"

subsection \<open>\<open>DaskScheduler\<close>\<close>

text \<open>
  The dictionary \<open>ret\<close> of \<open>post\<close>: its lists \<open>ret["error"]\<close> and \<open>ret["Nanny ID"]\<close>, and
  \<open>ret["success"]\<close>, absent until line 89 sets it.
\<close>

record ret =
  ret_error :: "pyval list"
  ret_nanny_id :: "string list"
  ret_success :: "bool option"

text \<open>
  The loop of \<open>DaskScheduler.post\<close> (lines 81 to 86). \<open>computers\<close> lists the keys of
  \<open>compute.computers\<close>, so that \<open>compute.computers[program]\<close> raises \<open>KeyError\<close> for
  any other program; \<open>submit_r\<close> is the behaviour of \<open>dask.submit\<close> for a program and a
  task: it raises, or returns the future. Neither is part of these sources. Nothing
  catches an exception here, so it leaves the loop with the state as it is by then.
\<close>

fun post_loop ::
  "(nat \<Rightarrow> string) \<Rightarrow> string list \<Rightarrow> (string \<Rightarrow> pydict \<Rightarrow> py_exception + future) \<Rightarrow> string
     \<Rightarrow> pydict list \<Rightarrow> ret \<Rightarrow> DaskNanny \<Rightarrow> py_exception option \<times> ret \<times> DaskNanny" where
  "post_loop tb computers submit_r program [] r n = (None, r, n)"
| "post_loop tb computers submit_r program (task # tasks) r n =
     (case map_of task ''internal_error'' of
        Some msg \<Rightarrow>
          post_loop tb computers submit_r program tasks (r\<lparr>ret_error := ret_error r @ [msg]\<rparr>) n
      | None \<Rightarrow>
          if program \<notin> set computers then
            (Some (PyExc (tb 85) ''KeyError'' (quoted program)), r, n)
          else
            (let n1 = n\<lparr>journal := journal n @ [Call_submit program task]\<rparr> in
             case submit_r program task of
               Inl e \<Rightarrow> (Some e, r, n1)
             | Inr fut \<Rightarrow>
                (case add_future fut n1 of
                   (uid, n2) \<Rightarrow>
                     post_loop tb computers submit_r program tasks
                       (r\<lparr>ret_nanny_id := ret_nanny_id r @ [uid]\<rparr>) n2)))"

text \<open>
  \<open>DaskScheduler.post\<close> (lines 63 to 90). \<open>unpacked\<close> is the outcome of lines 66 to 75
  (decoding the body, \<open>_check_auth\<close>, \<open>set_project\<close> and \<open>_unpack_tasks\<close>, none of them
  part of these sources): an exception, or the tasks and the program. The result is the
  exception that \<open>post\<close> raises or the dictionary it writes, with the state it leaves.
\<close>

definition post ::
  "(nat \<Rightarrow> string) \<Rightarrow> string list \<Rightarrow> (string \<Rightarrow> pydict \<Rightarrow> py_exception + future)
     \<Rightarrow> py_exception + (pydict list \<times> string) \<Rightarrow> DaskNanny \<Rightarrow> (py_exception + ret) \<times> DaskNanny" where
  "post tb computers submit_r unpacked n =
     (case unpacked of
        Inl e \<Rightarrow> (Inl e, n)
      | Inr (tasks, program) \<Rightarrow>
         (case post_loop tb computers submit_r program tasks
                 \<lparr>ret_error = [], ret_nanny_id = [], ret_success = None\<rparr> n of
            (Some e, r, n') \<Rightarrow> (Inl e, n')
          | (None, r, n') \<Rightarrow> (Inr (r\<lparr>ret_success := Some True\<rparr>), n')))"


subsection \<open>Notions used in the statements\<close>

text \<open>
  An entry is finished when \<open>future.done()\<close> returns true. \<open>entry_calls key fut\<close> are the
  calls that lines 30 to 35 make for a finished entry: \<open>future.result()\<close>, and
  \<open>add_page\<close> when the result is a dictionary whose \<open>success\<close> is true; \<open>loop_calls\<close>
  collects them over the items of the queue.
\<close>

definition finished :: "future \<Rightarrow> bool" where
  "finished fut = (done_r fut = Inr True)"

definition entry_calls :: "string \<Rightarrow> future \<Rightarrow> call list" where
  "entry_calls key fut =
     Call_result key #
       (case result_r fut of
          Inl e \<Rightarrow> []
        | Inr tmp_data \<Rightarrow>
           (case map_of tmp_data ''success'' of
              None \<Rightarrow> []
            | Some s \<Rightarrow> if truthy s then [Call_add_page key tmp_data] else []))"

fun loop_calls :: "(string \<times> future) list \<Rightarrow> call list" where
  "loop_calls [] = []"
| "loop_calls ((key, fut) # items) =
     (if finished fut then entry_calls key fut else []) @ loop_calls items"

text \<open>The queue entry for which a call of the journal was made.\<close>

fun call_key :: "call \<Rightarrow> string option" where
  "call_key (Call_result key) = Some key"
| "call_key (Call_add_page key p) = Some key"
| "call_key (Call_submit program task) = None"

text \<open>
  The items of a batch that are not error markers, the messages of those that are (the
  values under \<open>internal_error\<close>), and the next \<open>k\<close> draws of \<open>uuid.uuid4()\<close>.
\<close>

definition task_specs :: "pydict list \<Rightarrow> pydict list" where
  "task_specs tasks = filter (\<lambda>task. map_of task ''internal_error'' = None) tasks"

definition draws :: "DaskNanny \<Rightarrow> nat \<Rightarrow> string list" where
  "draws n k = map (uuid4_r n) [uuid_drawn n ..< uuid_drawn n + k]"

definition marker_messages :: "pydict list \<Rightarrow> pyval list" where
  "marker_messages tasks = List.map_filter (\<lambda>task. map_of task ''internal_error'') tasks"

subsection \<open>Concrete states and collaborators\<close>

text \<open>
  A source of identifiers that never repeats (\<open>u\<close>, \<open>uu\<close>, \<open>uuu\<close>, ...), a traceback
  text, result dictionaries of a successful and of a failed computation, and a store
  that accepts every page.
\<close>

definition uuid_src :: "nat \<Rightarrow> string" where
  "uuid_src i = replicate (Suc i) CHR ''u''"

definition tb_src :: "nat \<Rightarrow> string" where
  "tb_src l = ''  File dask_handler.py, in update'' @ nl"

definition page_ok :: pydict where
  "page_ok = [(''success'', PBool True), (''molecule_hash'', PStr ''h1''),
              (''modelchem'', PStr ''scf'')]"

definition page_failed :: pydict where
  "page_failed = [(''success'', PBool False), (''molecule_hash'', PStr ''h2''),
                  (''modelchem'', PStr ''scf''), (''error'', PStr ''solver diverged'')]"

definition store_accepts :: "pydict list \<Rightarrow> pydict \<Rightarrow> py_exception + pyval" where
  "store_accepts ps p = Inr (PBool True)"

definition nanny0 :: DaskNanny where
  "nanny0 = \<lparr>queue = [], errors = [], logger = [], mongod_socket = store_accepts,
              journal = [], uuid4_r = uuid_src, uuid_drawn = 0\<rparr>"

text \<open>
  A queue with a finished success, a finished failure and an unfinished entry; and the
  same queue with a last handle that has no \<open>done\<close> method (as the identifier that
  \<open>FireworksScheduler.post\<close> passes to \<open>add_future\<close>), so that \<open>future.done()\<close>
  raises \<open>AttributeError\<close>.
\<close>

definition nanny_mixed :: DaskNanny where
  "nanny_mixed = nanny0\<lparr>queue := [(''u'', Future (Inr True) (Inr page_ok)),
                                   (''uu'', Future (Inr True) (Inr page_failed)),
                                   (''uuu'', Future (Inr False) (Inr page_ok))],
                         uuid_drawn := 3\<rparr>"

definition attribute_error :: py_exception where
  "attribute_error = PyExc [] ''AttributeError'' ''int object has no attribute done''"

definition nanny_raising :: DaskNanny where
  "nanny_raising = nanny0\<lparr>queue := [(''u'', Future (Inr True) (Inr page_ok)),
                                     (''uu'', Future (Inr True) (Inr page_failed)),
                                     (''uuu'', Future (Inl attribute_error) (Inl attribute_error))],
                           uuid_drawn := 3\<rparr>"

text \<open>
  A store that cannot be reached, a store that rejects every page by returning false,
  a result dictionary without \<open>molecule_hash\<close>, and queues with one finished entry for
  them.
\<close>

definition connection_error :: py_exception where
  "connection_error =
     PyExc (''  File dask_handler.py, in update'' @ nl @ ''  File mongo_helper.py, in add_page'' @ nl)
       ''ConnectionError'' ''store unreachable''"

definition store_down :: "pydict list \<Rightarrow> pydict \<Rightarrow> py_exception + pyval" where
  "store_down ps p = Inl connection_error"

definition store_rejects :: "pydict list \<Rightarrow> pydict \<Rightarrow> py_exception + pyval" where
  "store_rejects ps p = Inr (PBool False)"

definition page_no_hash :: pydict where
  "page_no_hash = [(''success'', PBool True), (''modelchem'', PStr ''scf'')]"

definition nanny_store_down :: DaskNanny where
  "nanny_store_down = nanny0\<lparr>queue := [(''u'', Future (Inr True) (Inr page_ok))],
                              mongod_socket := store_down, uuid_drawn := 1\<rparr>"

definition nanny_rejecting :: DaskNanny where
  "nanny_rejecting = nanny0\<lparr>queue := [(''u'', Future (Inr True) (Inr page_ok))],
                             mongod_socket := store_rejects, uuid_drawn := 1\<rparr>"

definition nanny_no_hash :: DaskNanny where
  "nanny_no_hash = nanny0\<lparr>queue := [(''u'', Future (Inr True) (Inr page_no_hash))],
                           uuid_drawn := 1\<rparr>"

text \<open>
  Two tasks and an error marker, the programs known to \<open>compute.computers\<close>, a backend
  that accepts every task and returns a pending future, one whose \<open>submit\<close> raises,
  and one whose \<open>submit\<close> raises for the second task only.
\<close>

definition task_a :: pydict where
  "task_a = [(''molecule_hash'', PStr ''h1''), (''modelchem'', PStr ''scf'')]"

definition task_b :: pydict where
  "task_b = [(''molecule_hash'', PStr ''h3''), (''modelchem'', PStr ''scf'')]"

definition marker_bad :: pydict where
  "marker_bad = [(''internal_error'', PStr ''unknown reference: bad-ref'')]"

definition computers_src :: "string list" where
  "computers_src = [''psi4'']"

definition pending :: future where
  "pending = Future (Inr False) (Inr page_ok)"


definition backend_error :: py_exception where
  "backend_error = PyExc (''  File dask_handler.py, in post'' @ nl) ''OSError'' ''scheduler connection lost''"

definition submit_fails :: "string \<Rightarrow> pydict \<Rightarrow> py_exception + future" where
  "submit_fails program task = Inl backend_error"

definition submit_picky :: "string \<Rightarrow> pydict \<Rightarrow> py_exception + future" where
  "submit_picky program task = (if task = task_b then Inl backend_error else Inr pending)"

section \<open>Properties\<close>

text \<open>
  The queue and the error dictionary are association lists. The hypothesis that the
  keys of such a list are distinct says that it is a dictionary; \<open>add_future\<close> and
  \<open>update\<close> keep it so.
\<close>

subsection \<open>The \<open>try\<close> statement and the two loops of \<open>update\<close>\<close>

lemma try_body_frame:
  "queue (snd (try_body tb key fut n)) = queue n"
  "errors (snd (try_body tb key fut n)) = errors n"
  "mongod_socket (snd (try_body tb key fut n)) = mongod_socket n"
  "uuid4_r (snd (try_body tb key fut n)) = uuid4_r n"
  "uuid_drawn (snd (try_body tb key fut n)) = uuid_drawn n"
  by (simp_all add: try_body_def getitem_def Let_def split: sum.splits option.splits)

lemma try_body_journal:
  "journal (snd (try_body tb key fut n)) = journal n @ entry_calls key fut"
  by (simp add: try_body_def entry_calls_def getitem_def Let_def split: sum.splits option.splits)

lemma try_except_alt:
  "try_except tb key fut n =
     (case fst (try_body tb key fut n) of
        None \<Rightarrow> snd (try_body tb key fut n)
      | Some e \<Rightarrow> except_clause key e (snd (try_body tb key fut n)))"
  by (simp add: try_except_def split: prod.splits option.splits)

lemma try_except_frame:
  "queue (try_except tb key fut n) = queue n"
  "mongod_socket (try_except tb key fut n) = mongod_socket n"
  "uuid4_r (try_except tb key fut n) = uuid4_r n"
  "uuid_drawn (try_except tb key fut n) = uuid_drawn n"
  by (simp_all add: try_except_alt except_clause_def try_body_frame split: option.splits)

lemma try_except_journal:
  "journal (try_except tb key fut n) = journal n @ entry_calls key fut"
  by (simp add: try_except_alt except_clause_def try_body_journal split: option.splits)

lemma try_except_errors:
  "errors (try_except tb key fut n) =
     (case fst (try_body tb key fut n) of
        None \<Rightarrow> errors n
      | Some e \<Rightarrow> AList.update key (error_message e) (errors n))"
  by (simp add: try_except_alt except_clause_def try_body_frame split: option.splits)

lemma try_except_errors_other:
  "k \<noteq> key \<Longrightarrow> map_of (errors (try_except tb key fut n)) k = map_of (errors n) k"
  by (simp add: try_except_errors update_conv' split: option.splits)



lemma update_loop_frame:
  "queue (snd (snd (update_loop tb items dk n))) = queue n"
  "mongod_socket (snd (snd (update_loop tb items dk n))) = mongod_socket n"
  "uuid4_r (snd (snd (update_loop tb items dk n))) = uuid4_r n"
  "uuid_drawn (snd (snd (update_loop tb items dk n))) = uuid_drawn n"
  by (induction tb items dk n rule: update_loop.induct;
      simp add: try_except_frame split: sum.splits)+

lemma update_loop_append:
  "update_loop tb (xs @ ys) dk n =
     (case update_loop tb xs dk n of
        (None, dk', n') \<Rightarrow> update_loop tb ys dk' n'
      | (Some e, dk', n') \<Rightarrow> (Some e, dk', n'))"
  by (induction tb xs dk n rule: update_loop.induct) (simp_all split: sum.splits)

lemma update_loop_raises:
  "fst (update_loop tb items dk n) = Some e \<Longrightarrow> \<exists>p \<in> set items. done_r (snd p) = Inl e"
  by (induction tb items dk n rule: update_loop.induct)
     (auto split: sum.splits if_splits)

lemma update_loop_returns:
  "\<forall>p \<in> set items. \<exists>d. done_r (snd p) = Inr d \<Longrightarrow>
   fst (update_loop tb items dk n) = None \<and>
   fst (snd (update_loop tb items dk n)) = dk @ map fst (filter (\<lambda>p. finished (snd p)) items) \<and>
   journal (snd (snd (update_loop tb items dk n))) = journal n @ loop_calls items"
  by (induction tb items dk n rule: update_loop.induct)
     (auto simp: finished_def try_except_journal split: sum.splits)

lemma update_loop_errors_other:
  "k \<notin> fst ` {p \<in> set items. finished (snd p)} \<Longrightarrow>
   map_of (errors (snd (snd (update_loop tb items dk n)))) k = map_of (errors n) k"
proof (induction tb items dk n rule: update_loop.induct)
  case (1 tb dk n)
  show ?case by simp
next
  case (2 tb key fut items dk n)
  show ?case
  proof (cases "done_r fut")
    case (Inl e)
    then show ?thesis by simp
  next
    case (Inr d)
    show ?thesis
    proof (cases d)
      case True
      with Inr "2.prems" have ne: "k \<noteq> key" and
        rest: "k \<notin> fst ` {p \<in> set items. finished (snd p)}"
        by (auto simp: finished_def image_iff)
      from "2.IH"(1) [OF Inr True rest] show ?thesis
        using Inr True ne by (simp add: try_except_errors_other)
    next
      case False
      with Inr "2.prems" have rest: "k \<notin> fst ` {p \<in> set items. finished (snd p)}"
        by (auto simp: finished_def image_iff)
      from "2.IH"(2) [OF Inr False rest] show ?thesis
        using Inr False by simp
    qed
  qed
qed


lemma AList_delete_filter: "AList.delete k q = filter (\<lambda>p. fst p \<noteq> k) q"
  by (induction q) auto

lemma del_loop_returns:
  "distinct ks \<Longrightarrow> set ks \<subseteq> fst ` set q \<Longrightarrow>
   del_loop tb ks q = (None, filter (\<lambda>p. fst p \<notin> set ks) q)"
proof (induction ks arbitrary: q)
  case Nil
  show ?case by simp
next
  case (Cons k ks)
  from Cons.prems have k: "k \<in> fst ` set q" and d: "distinct ks" and nk: "k \<notin> set ks"
    by auto
  have "set ks \<subseteq> fst ` set (AList.delete k q)"
  proof
    fix x assume x: "x \<in> set ks"
    with Cons.prems(2) obtain p where "p \<in> set q" "fst p = x" by auto
    moreover from x nk have "x \<noteq> k" by auto
    ultimately show "x \<in> fst ` set (AList.delete k q)"
      by (force simp: AList_delete_filter)
  qed
  from Cons.IH [OF d this] show ?case
    using k by (simp add: AList_delete_filter conj_commute)
qed

lemma keys_filter_distinct:
  "distinct (map fst q) \<Longrightarrow> distinct (map fst (filter P q))"
  by (simp add: distinct_map_filter)

lemma filter_finished_keys:
  assumes "distinct (map fst q)"
  shows "filter (\<lambda>p. fst p \<notin> set (map fst (filter (\<lambda>p. finished (snd p)) q))) q
         = filter (\<lambda>p. \<not> finished (snd p)) q"
proof (rule filter_cong [OF refl])
  fix p assume p: "p \<in> set q"
  show "(fst p \<notin> set (map fst (filter (\<lambda>p. finished (snd p)) q))) = (\<not> finished (snd p))"
  proof
    assume "fst p \<notin> set (map fst (filter (\<lambda>p. finished (snd p)) q))"
    with p show "\<not> finished (snd p)" by force
  next
    assume nf: "\<not> finished (snd p)"
    show "fst p \<notin> set (map fst (filter (\<lambda>p. finished (snd p)) q))"
    proof
      assume "fst p \<in> set (map fst (filter (\<lambda>p. finished (snd p)) q))"
      then obtain p' where p': "p' \<in> set q" "finished (snd p')" "fst p' = fst p" by auto
      from assms p p'(1) p'(3) have "p' = p"
        by (metis eq_key_imp_eq_value prod.collapse)
      with nf p'(2) show False by simp
    qed
  qed
qed

lemma update_returns:
  assumes d: "distinct (map fst (queue n))"
    and r: "\<forall>p \<in> set (queue n). \<exists>d. done_r (snd p) = Inr d"
  shows "update tb n =
           (None, (snd (snd (update_loop tb (queue n) [] n)))
                    \<lparr>queue := filter (\<lambda>p. \<not> finished (snd p)) (queue n)\<rparr>)"
proof -
  let ?l = "update_loop tb (queue n) [] n"
  from update_loop_returns [OF r, of tb "[]" n]
  have f: "fst ?l = None"
    and k: "fst (snd ?l) = map fst (filter (\<lambda>p. finished (snd p)) (queue n))"
    by simp_all
  have q: "queue (snd (snd ?l)) = queue n" by (rule update_loop_frame)
  have "del_loop tb (fst (snd ?l)) (queue n) =
          (None, filter (\<lambda>p. fst p \<notin> set (fst (snd ?l))) (queue n))"
    unfolding k by (rule del_loop_returns) (auto simp: keys_filter_distinct d)
  also have "filter (\<lambda>p. fst p \<notin> set (fst (snd ?l))) (queue n)
               = filter (\<lambda>p. \<not> finished (snd p)) (queue n)"
    unfolding k by (rule filter_finished_keys [OF d])
  finally have dl: "del_loop tb (fst (snd ?l)) (queue n) =
      (None, filter (\<lambda>p. \<not> finished (snd p)) (queue n))" .
  obtain a b c where l: "?l = (a, b, c)" by (cases ?l)
  with f have a: "a = None" by simp
  from l q have qc: "queue c = queue n" by simp
  from l dl have "del_loop tb b (queue n) = (None, filter (\<lambda>p. \<not> finished (snd p)) (queue n))"
    by simp
  then show ?thesis
    by (simp add: update_def l a qc)
qed

lemma update_raises:
  assumes "fst (update_loop tb (queue n) [] n) = Some e"
  shows "update tb n = (Some e, snd (snd (update_loop tb (queue n) [] n)))"
  using assms by (cases "update_loop tb (queue n) [] n") (simp add: update_def)

subsection \<open>\<open>add_future\<close>\<close>

lemma add_future_fields:
  "fst (add_future fut n) = uuid4_r n (uuid_drawn n)"
  "uuid4_r (snd (add_future fut n)) = uuid4_r n"
  "uuid_drawn (snd (add_future fut n)) = Suc (uuid_drawn n)"
  "queue (snd (add_future fut n)) = AList.update (uuid4_r n (uuid_drawn n)) fut (queue n)"
  "errors (snd (add_future fut n)) = errors n"
  "journal (snd (add_future fut n)) = journal n"
  "mongod_socket (snd (add_future fut n)) = mongod_socket n"
  by (simp_all add: add_future_def Let_def)

lemma add_futures_Cons:
  "add_futures (fut # futs) n =
     (fst (add_future fut n) # fst (add_futures futs (snd (add_future fut n))),
      snd (add_futures futs (snd (add_future fut n))))"
  by (simp add: split_beta)

declare add_futures.simps(2) [simp del]

lemma add_futures_uuid:
  "uuid4_r (snd (add_futures futs n)) = uuid4_r n \<and>
   uuid_drawn (snd (add_futures futs n)) = uuid_drawn n + length futs"
  by (induction futs arbitrary: n) (simp_all add: add_futures_Cons add_future_fields)




lemma inj_uuid_src: "inj_on uuid_src A"
  by (rule inj_onI) (auto simp: uuid_src_def dest: arg_cong [where f = length])





subsection \<open>\<open>update\<close>: unfinished entries, failures, repeated passes\<close>

lemma update_loop_None:
  "fst (update_loop tb items dk n) = None \<Longrightarrow> \<forall>p \<in> set items. \<exists>d. done_r (snd p) = Inr d"
  by (induction tb items dk n rule: update_loop.induct)
     (auto split: sum.splits if_splits)

lemma update_loop_idle:
  "\<forall>p \<in> set items. done_r (snd p) = Inr False \<Longrightarrow> update_loop tb items dk n = (None, dk, n)"
  by (induction tb items dk n rule: update_loop.induct) auto

lemma unfinished_key:
  assumes "distinct (map fst q)" and "(k, f) \<in> set q" and "\<not> finished f"
  shows "k \<notin> fst ` {p \<in> set q. finished (snd p)}"
proof
  assume "k \<in> fst ` {p \<in> set q. finished (snd p)}"
  then obtain f' where "(k, f') \<in> set q" "finished f'" by auto
  with assms(1,2) have "f' = f" by (metis eq_key_imp_eq_value)
  with assms(3) \<open>finished f'\<close> show False by simp
qed

lemma update_errors_unfinished:
  assumes d: "distinct (map fst (queue n))" and k: "(k, f) \<in> set (queue n)"
    and u: "\<not> finished f"
  shows "map_of (errors (snd (update tb n))) k = map_of (errors n) k"
proof -
  let ?l = "update_loop tb (queue n) [] n"
  have e: "map_of (errors (snd (snd ?l))) k = map_of (errors n) k"
    by (rule update_loop_errors_other) (rule unfinished_key [OF d k u])
  show ?thesis
  proof (cases "fst ?l")
    case None
    from update_returns [OF d update_loop_None [OF None]] e show ?thesis by simp
  next
    case (Some e')
    from update_raises [OF Some] e show ?thesis by simp
  qed
qed

lemma update_queue_cases:
  assumes d: "distinct (map fst (queue n))"
  shows "queue (snd (update tb n)) =
           (if fst (update tb n) = None then filter (\<lambda>p. \<not> finished (snd p)) (queue n)
            else queue n)"
proof (cases "fst (update_loop tb (queue n) [] n)")
  case None
  from update_returns [OF d update_loop_None [OF None]] show ?thesis by simp
next
  case (Some e)
  from update_raises [OF Some] show ?thesis by (simp add: update_loop_frame)
qed

text \<open>
  Claim C8. An entry whose handle reports not finished (\<open>future.done()\<close> returns
  false) is left untouched by \<open>update\<close>: whether the call returns or raises, the key
  is still in the queue with the same future and the error dictionary is unchanged at
  that key.
\<close>

theorem update_keeps_unfinished:
  assumes "distinct (map fst (queue n))" and "(k, f) \<in> set (queue n)"
    and "done_r f = Inr False"
  shows "map_of (queue (snd (update tb n))) k = Some f \<and>
         map_of (errors (snd (update tb n))) k = map_of (errors n) k"
proof -
  from assms(3) have u: "\<not> finished f" by (simp add: finished_def)
  have "(k, f) \<in> set (queue (snd (update tb n)))"
    using assms(2) u by (simp add: update_queue_cases [OF assms(1)])
  moreover have "distinct (map fst (queue (snd (update tb n))))"
    using assms(1) by (simp add: update_queue_cases [OF assms(1)] distinct_map_filter)
  ultimately have "map_of (queue (snd (update tb n))) k = Some f" by simp
  with update_errors_unfinished [OF assms(1,2) u] show ?thesis by simp
qed

lemma update_mixed:
  "update tb_src nanny_mixed =
     (None, nanny_mixed\<lparr>queue := [(''uuu'', Future (Inr False) (Inr page_ok))],
        errors := [(''uu'', tb_src 32 @ ''ValueError:'' @ failure_text (PStr ''h2'') (PStr ''scf'') (PStr ''solver diverged''))],
        logger := [''MONGO ADD: (h1, scf) - True'',
                   ''MONGO ADD: ERROR'' @ nl @ tb_src 32 @ ''ValueError:'' @ failure_text (PStr ''h2'') (PStr ''scf'') (PStr ''solver diverged'')],
        journal := [Call_result ''u'', Call_add_page ''u'' page_ok, Call_result ''uu'']\<rparr>)"
  by (simp add: update_def nanny_mixed_def nanny0_def try_except_def try_body_def getitem_def
      except_clause_def error_message_def page_ok_def page_failed_def store_accepts_def Let_def)

theorem update_keeps_unfinished_witness:
  "distinct (map fst (queue nanny_mixed)) \<and>
   (''uuu'', Future (Inr False) (Inr page_ok)) \<in> set (queue nanny_mixed) \<and>
   fst (update tb_src nanny_mixed) = None \<and>
   map_of (queue (snd (update tb_src nanny_mixed))) ''uuu'' = Some (Future (Inr False) (Inr page_ok)) \<and>
   map_of (errors (snd (update tb_src nanny_mixed))) ''uuu'' = None"
proof -
  have d: "distinct (map fst (queue nanny_mixed))"
    and k: "(''uuu'', Future (Inr False) (Inr page_ok)) \<in> set (queue nanny_mixed)"
    and e: "map_of (errors nanny_mixed) ''uuu'' = None"
    by (simp_all add: nanny_mixed_def nanny0_def)
  have r: "fst (update tb_src nanny_mixed) = None"
    by (simp add: update_mixed)
  from update_keeps_unfinished [OF d k, of tb_src] d k e r show ?thesis by simp
qed

lemma entry_calls_key: "c \<in> set (entry_calls key fut) \<Longrightarrow> call_key c = Some key"
  by (auto simp: entry_calls_def split: sum.splits option.splits if_splits)

lemma count_entry_calls_other:
  "call_key c \<noteq> Some key \<Longrightarrow> count_list (entry_calls key fut) c = 0"
  using entry_calls_key [of c key fut] by (auto simp: count_list_0_iff)

lemma count_loop_calls_other:
  "k \<notin> fst ` {p \<in> set items. finished (snd p)} \<Longrightarrow> call_key c = Some k \<Longrightarrow>
   count_list (loop_calls items) c = 0"
proof (induction items)
  case Nil
  show ?case by simp
next
  case (Cons p items)
  obtain key fut where p: "p = (key, fut)" by (cases p)
  from Cons.prems(1) have rest: "k \<notin> fst ` {p \<in> set items. finished (snd p)}" by auto
  from Cons.prems(1) p have "finished fut \<Longrightarrow> key \<noteq> k" by force
  then have "finished fut \<Longrightarrow> count_list (entry_calls key fut) c = 0"
    using Cons.prems(2) by (intro count_entry_calls_other) auto
  with Cons.IH [OF rest Cons.prems(2)] show ?case
    by (simp add: p)
qed

lemma count_loop_calls:
  assumes "distinct (map fst items)" and "(k, f) \<in> set items" and "finished f"
    and "call_key c = Some k"
  shows "count_list (loop_calls items) c = count_list (entry_calls k f) c"
  using assms(1,2)
proof (induction items)
  case Nil
  then show ?case by simp
next
  case (Cons p items)
  obtain key fut where p: "p = (key, fut)" by (cases p)
  show ?case
  proof (cases "p = (k, f)")
    case True
    from Cons.prems(1) True have "k \<notin> fst ` set items" by auto
    then have "k \<notin> fst ` {p \<in> set items. finished (snd p)}" by auto
    from count_loop_calls_other [OF this assms(4)] show ?thesis
      using True assms(3) by simp
  next
    case False
    with Cons.prems(2) have in_items: "(k, f) \<in> set items" by simp
    with Cons.prems(1) p have "key \<noteq> k" by (auto simp: image_iff)
    then have "count_list (entry_calls key fut) c = 0"
      using assms(4) by (intro count_entry_calls_other) auto
    moreover from Cons.prems(1) have "distinct (map fst items)" by simp
    ultimately show ?thesis
      using Cons.IH in_items by (simp add: p)
  qed
qed

lemma count_entry_calls_result: "count_list (entry_calls k f) (Call_result k) = 1"
  by (simp add: entry_calls_def split: sum.splits option.splits)

lemma update_result_calls:
  assumes d: "distinct (map fst (queue n))"
    and r: "\<forall>p \<in> set (queue n). \<exists>d. done_r (snd p) = Inr d"
    and k: "(k, f) \<in> set (queue n)"
  shows "count_list (journal (snd (update tb n))) (Call_result k) =
           count_list (journal n) (Call_result k) + (if finished f then 1 else 0)"
proof -
  have j: "journal (snd (update tb n)) = journal n @ loop_calls (queue n)"
    using update_returns [OF d r, of tb] update_loop_returns [OF r, of tb "[]" n] by simp
  show ?thesis
  proof (cases "finished f")
    case True
    from count_loop_calls [OF d k True, of "Call_result k"] show ?thesis
      using True by (simp add: j count_entry_calls_result)
  next
    case False
    from count_loop_calls_other [OF unfinished_key [OF d k False], of "Call_result k"]
    show ?thesis using False by (simp add: j)
  qed
qed

text \<open>
  Claim C4. A failure while a finished entry is processed (a failure outcome, an
  exception of \<open>future.result()\<close>, a defect of the call into the store) stays with that
  entry. First, the only exceptions that leave \<open>update\<close> are those raised by a
  \<open>future.done()\<close> check, which is outside the \<open>try\<close>. Second, when every check returns,
  \<open>update\<close> returns whatever \<open>future.result()\<close> and \<open>add_page\<close> do for any entry: the
  queue keeps exactly the unfinished entries, and the outcome of every finished entry
  has been retrieved once.
\<close>

theorem update_confines_failures:
  assumes "distinct (map fst (queue n))"
  shows "(\<forall>e. fst (update tb n) = Some e \<longrightarrow> (\<exists>p \<in> set (queue n). done_r (snd p) = Inl e)) \<and>
         ((\<forall>p \<in> set (queue n). \<exists>d. done_r (snd p) = Inr d) \<longrightarrow>
            fst (update tb n) = None \<and>
            queue (snd (update tb n)) = filter (\<lambda>p. \<not> finished (snd p)) (queue n) \<and>
            (\<forall>p \<in> set (queue n). finished (snd p) \<longrightarrow>
               count_list (journal (snd (update tb n))) (Call_result (fst p)) =
                 count_list (journal n) (Call_result (fst p)) + 1))"
proof (intro conjI allI impI)
  fix e assume e: "fst (update tb n) = Some e"
  show "\<exists>p \<in> set (queue n). done_r (snd p) = Inl e"
  proof (cases "fst (update_loop tb (queue n) [] n)")
    case None
    from update_returns [OF assms update_loop_None [OF None], of tb] e show ?thesis by simp
  next
    case (Some e')
    from update_raises [OF Some] e have "e' = e" by simp
    with Some show ?thesis by (auto dest: update_loop_raises)
  qed
next
  assume r: "\<forall>p \<in> set (queue n). \<exists>d. done_r (snd p) = Inr d"
  from update_returns [OF assms r, of tb]
  show "fst (update tb n) = None"
    and "queue (snd (update tb n)) = filter (\<lambda>p. \<not> finished (snd p)) (queue n)"
    by simp_all
  show "\<forall>p \<in> set (queue n). finished (snd p) \<longrightarrow>
               count_list (journal (snd (update tb n))) (Call_result (fst p)) =
                 count_list (journal n) (Call_result (fst p)) + 1"
  proof (intro ballI impI)
    fix p assume p: "p \<in> set (queue n)" and f: "finished (snd p)"
    from p have "(fst p, snd p) \<in> set (queue n)" by simp
    from update_result_calls [OF assms r this, of tb] f show
      "count_list (journal (snd (update tb n))) (Call_result (fst p)) =
         count_list (journal n) (Call_result (fst p)) + 1"
      by simp
  qed
qed

theorem update_confines_failures_witness:
  "distinct (map fst (queue nanny_mixed)) \<and>
   fst (update tb_src nanny_mixed) = None \<and>
   queue (snd (update tb_src nanny_mixed)) = [(''uuu'', Future (Inr False) (Inr page_ok))] \<and>
   map_of (errors (snd (update tb_src nanny_mixed))) ''uu'' \<noteq> None \<and>
   count_list (journal (snd (update tb_src nanny_mixed))) (Call_result ''u'') = 1 \<and>
   count_list (journal (snd (update tb_src nanny_mixed))) (Call_result ''uu'') = 1"
proof -
  have d: "distinct (map fst (queue nanny_mixed))"
    and r: "\<forall>p \<in> set (queue nanny_mixed). \<exists>d. done_r (snd p) = Inr d"
    by (auto simp: nanny_mixed_def nanny0_def)
  have f: "filter (\<lambda>p. \<not> finished (snd p)) (queue nanny_mixed) =
             [(''uuu'', Future (Inr False) (Inr page_ok))]"
    and j: "journal nanny_mixed = []"
    and m: "set (queue nanny_mixed) = {(''u'', Future (Inr True) (Inr page_ok)),
                (''uu'', Future (Inr True) (Inr page_failed)),
                (''uuu'', Future (Inr False) (Inr page_ok))}"
    by (auto simp: nanny_mixed_def nanny0_def finished_def)
  have e: "map_of (errors (snd (update tb_src nanny_mixed))) ''uu'' \<noteq> None"
    by (simp add: update_mixed)
  from update_confines_failures [OF d, of tb_src] r have
    a: "fst (update tb_src nanny_mixed) = None" and
    b: "queue (snd (update tb_src nanny_mixed)) = filter (\<lambda>p. \<not> finished (snd p)) (queue nanny_mixed)" and
    c: "\<forall>p \<in> set (queue nanny_mixed). finished (snd p) \<longrightarrow>
       count_list (journal (snd (update tb_src nanny_mixed))) (Call_result (fst p)) =
         count_list (journal nanny_mixed) (Call_result (fst p)) + 1"
    by blast+
  from b have b': "queue (snd (update tb_src nanny_mixed)) = [(''uuu'', Future (Inr False) (Inr page_ok))]"
    by (simp only: f)
  from c have
    "count_list (journal (snd (update tb_src nanny_mixed))) (Call_result ''u'') = 1"
    "count_list (journal (snd (update tb_src nanny_mixed))) (Call_result ''uu'') = 1"
    by (simp_all add: m j finished_def)
  with d e a b' show ?thesis by simp
qed

lemma update_loop_prefix:
  assumes r: "\<forall>p \<in> set pre. \<exists>d. done_r (snd p) = Inr d" and e: "done_r f = Inl e"
  shows "update_loop tb (pre @ (k, f) # rest) dk n =
           (Some e, dk @ map fst (filter (\<lambda>p. finished (snd p)) pre),
            snd (snd (update_loop tb pre dk n)))"
proof -
  obtain a b c where l: "update_loop tb pre dk n = (a, b, c)"
    by (cases "update_loop tb pre dk n")
  from update_loop_returns [OF r, of tb dk n] l
  have "a = None" and "b = dk @ map fst (filter (\<lambda>p. finished (snd p)) pre)"
    by simp_all
  then show ?thesis
    by (simp add: update_loop_append l e)
qed

lemma update_raises_at:
  assumes q: "queue n = pre @ (k, f) # rest"
    and r: "\<forall>p \<in> set pre. \<exists>d. done_r (snd p) = Inr d" and e: "done_r f = Inl e"
  shows "update tb n = (Some e, snd (snd (update_loop tb pre [] n)))"
  using update_loop_prefix [OF r e, of tb k rest "[]" n]
  by (simp add: update_def q)

text \<open>
  Claim C10. When \<open>future.done()\<close> raises for some entry, the exception leaves
  \<open>update\<close> and no entry is removed from the queue in that pass. The entries before it
  in the iteration have been processed all the same: the state left is the one the
  first loop reaches over them, where the outcome of each finished one has been
  retrieved (and a page forwarded, or a diagnostic filed under its key). They are still
  in the queue, so that the next pass, which raises again, retrieves their outcomes a
  second time.
\<close>

theorem update_done_raises:
  assumes "queue n = pre @ (k, f) # rest"
    and "\<forall>p \<in> set pre. \<exists>d. done_r (snd p) = Inr d"
    and "done_r f = Inl e"
  shows "fst (update tb n) = Some e \<and>
         snd (update tb n) = snd (snd (update_loop tb pre [] n)) \<and>
         queue (snd (update tb n)) = queue n \<and>
         journal (snd (update tb n)) = journal n @ loop_calls pre \<and>
         fst (update tb (snd (update tb n))) = Some e \<and>
         queue (snd (update tb (snd (update tb n)))) = queue n \<and>
         journal (snd (update tb (snd (update tb n)))) = journal n @ loop_calls pre @ loop_calls pre"
proof -
  let ?n1 = "snd (snd (update_loop tb pre [] n))"
  have u1: "update tb n = (Some e, ?n1)"
    by (rule update_raises_at [OF assms])
  have q1: "queue ?n1 = queue n" by (rule update_loop_frame)
  have j1: "journal ?n1 = journal n @ loop_calls pre"
    using update_loop_returns [OF assms(2), of tb "[]" n] by simp
  let ?n2 = "snd (snd (update_loop tb pre [] ?n1))"
  have u2: "update tb ?n1 = (Some e, ?n2)"
    by (rule update_raises_at [OF _ assms(2,3)]) (simp add: q1 assms(1))
  have q2: "queue ?n2 = queue n" by (simp add: update_loop_frame)
  have j2: "journal ?n2 = journal ?n1 @ loop_calls pre"
    using update_loop_returns [OF assms(2), of tb "[]" ?n1] by simp
  show ?thesis
    by (simp add: u1 u2 q1 q2 j1 j2)
qed

lemma update_raising:
  "update tb_src nanny_raising =
     (Some attribute_error, nanny_raising\<lparr>
        errors := [(''uu'', tb_src 32 @ ''ValueError:'' @ failure_text (PStr ''h2'') (PStr ''scf'') (PStr ''solver diverged''))],
        logger := [''MONGO ADD: (h1, scf) - True'',
                   ''MONGO ADD: ERROR'' @ nl @ tb_src 32 @ ''ValueError:'' @ failure_text (PStr ''h2'') (PStr ''scf'') (PStr ''solver diverged'')],
        journal := [Call_result ''u'', Call_add_page ''u'' page_ok, Call_result ''uu'']\<rparr>)"
  by (simp add: update_def nanny_raising_def nanny0_def try_except_def try_body_def getitem_def
      except_clause_def error_message_def page_ok_def page_failed_def store_accepts_def Let_def)

theorem update_done_raises_witness:
  "fst (update tb_src nanny_raising) = Some attribute_error \<and>
   queue (snd (update tb_src nanny_raising)) = queue nanny_raising \<and>
   map_of (errors (snd (update tb_src nanny_raising))) ''uu'' \<noteq> None \<and>
   journal (snd (update tb_src nanny_raising)) =
     [Call_result ''u'', Call_add_page ''u'' page_ok, Call_result ''uu''] \<and>
   fst (update tb_src (snd (update tb_src nanny_raising))) = Some attribute_error \<and>
   queue (snd (update tb_src (snd (update tb_src nanny_raising)))) = queue nanny_raising \<and>
   journal (snd (update tb_src (snd (update tb_src nanny_raising)))) =
     [Call_result ''u'', Call_add_page ''u'' page_ok, Call_result ''uu'',
      Call_result ''u'', Call_add_page ''u'' page_ok, Call_result ''uu'']"
proof -
  have q: "queue nanny_raising =
      [(''u'', Future (Inr True) (Inr page_ok)), (''uu'', Future (Inr True) (Inr page_failed))]
        @ (''uuu'', Future (Inl attribute_error) (Inl attribute_error)) # []"
    by (simp add: nanny_raising_def nanny0_def)
  have r: "\<forall>p \<in> set [(''u'', Future (Inr True) (Inr page_ok)),
                        (''uu'', Future (Inr True) (Inr page_failed))]. \<exists>d. done_r (snd p) = Inr d"
    by auto
  have e: "done_r (Future (Inl attribute_error) (Inl attribute_error)) = Inl attribute_error"
    by simp
  have c: "loop_calls [(''u'', Future (Inr True) (Inr page_ok)),
                        (''uu'', Future (Inr True) (Inr page_failed))] =
             [Call_result ''u'', Call_add_page ''u'' page_ok, Call_result ''uu'']"
    by (simp add: finished_def entry_calls_def page_ok_def page_failed_def)
  have j: "journal nanny_raising = []"
    by (simp add: nanny_raising_def nanny0_def)
  have er: "map_of (errors (snd (update tb_src nanny_raising))) ''uu'' \<noteq> None"
    by (simp add: update_raising)
  note t = update_done_raises [OF q r e, of tb_src, unfolded c j]
  from t [THEN conjunct1] t [THEN conjunct2, THEN conjunct2] er show ?thesis
    by simp
qed

lemma update_idle:
  "\<forall>p \<in> set (queue n). done_r (snd p) = Inr False \<Longrightarrow> update tb n = (None, n)"
  by (simp add: update_def update_loop_idle)

text \<open>
  Claim C5. Two successive calls of \<open>update\<close>, with no \<open>add_future\<close> between them
  and the same answers of the futures, for handles whose \<open>future.done()\<close> check
  returns a truth value: the second call changes nothing, it returns and leaves the
  state of the first, so that it removes no entry, files no diagnostic and makes no
  call. Over the two calls the outcome of each finished entry is retrieved exactly
  once, and that of an unfinished entry not at all.
\<close>

theorem update_twice:
  assumes "distinct (map fst (queue n))"
    and "\<forall>p \<in> set (queue n). \<exists>d. done_r (snd p) = Inr d"
  shows "update tb (snd (update tb n)) = (None, snd (update tb n)) \<and>
         (\<forall>p \<in> set (queue n).
            count_list (journal (snd (update tb (snd (update tb n))))) (Call_result (fst p)) =
              count_list (journal n) (Call_result (fst p)) + (if finished (snd p) then 1 else 0))"
proof -
  let ?n1 = "snd (update tb n)"
  have q1: "queue ?n1 = filter (\<lambda>p. \<not> finished (snd p)) (queue n)"
    using update_returns [OF assms, of tb] by simp
  have "\<forall>p \<in> set (queue ?n1). done_r (snd p) = Inr False"
    unfolding q1 using assms(2) by (auto simp: finished_def)
  then have second: "update tb ?n1 = (None, ?n1)" by (rule update_idle)
  have "\<forall>p \<in> set (queue n).
          count_list (journal ?n1) (Call_result (fst p)) =
            count_list (journal n) (Call_result (fst p)) + (if finished (snd p) then 1 else 0)"
  proof
    fix p assume "p \<in> set (queue n)"
    then have "(fst p, snd p) \<in> set (queue n)" by simp
    from update_result_calls [OF assms this, of tb]
    show "count_list (journal ?n1) (Call_result (fst p)) =
            count_list (journal n) (Call_result (fst p)) + (if finished (snd p) then 1 else 0)" .
  qed
  with second show ?thesis by simp
qed

theorem update_twice_witness:
  "distinct (map fst (queue nanny_mixed)) \<and>
   update tb_src (snd (update tb_src nanny_mixed)) = (None, snd (update tb_src nanny_mixed)) \<and>
   count_list (journal (snd (update tb_src (snd (update tb_src nanny_mixed))))) (Call_result ''u'') = 1 \<and>
   count_list (journal (snd (update tb_src (snd (update tb_src nanny_mixed))))) (Call_result ''uu'') = 1 \<and>
   count_list (journal (snd (update tb_src (snd (update tb_src nanny_mixed))))) (Call_result ''uuu'') = 0"
proof -
  have d: "distinct (map fst (queue nanny_mixed))"
    and r: "\<forall>p \<in> set (queue nanny_mixed). \<exists>d. done_r (snd p) = Inr d"
    by (auto simp: nanny_mixed_def nanny0_def)
  have j: "journal nanny_mixed = []"
    and m: "set (queue nanny_mixed) = {(''u'', Future (Inr True) (Inr page_ok)),
                (''uu'', Future (Inr True) (Inr page_failed)),
                (''uuu'', Future (Inr False) (Inr page_ok))}"
    by (auto simp: nanny_mixed_def nanny0_def)
  from update_twice [OF d r, of tb_src] have
    a: "update tb_src (snd (update tb_src nanny_mixed)) = (None, snd (update tb_src nanny_mixed))" and
    c: "\<forall>p \<in> set (queue nanny_mixed).
            count_list (journal (snd (update tb_src (snd (update tb_src nanny_mixed))))) (Call_result (fst p)) =
              count_list (journal nanny_mixed) (Call_result (fst p)) + (if finished (snd p) then 1 else 0)"
    by blast+
  from c have
    "count_list (journal (snd (update tb_src (snd (update tb_src nanny_mixed))))) (Call_result ''u'') = 1"
    "count_list (journal (snd (update tb_src (snd (update tb_src nanny_mixed))))) (Call_result ''uu'') = 1"
    "count_list (journal (snd (update tb_src (snd (update tb_src nanny_mixed))))) (Call_result ''uuu'') = 0"
    unfolding m j by (simp_all add: finished_def)
  with d a show ?thesis by simp
qed

subsection \<open>What \<open>update\<close> files for a finished entry\<close>


lemma try_body_success:
  assumes "result_r f = Inr d" and "map_of d ''success'' = Some s" and "truthy s"
    and "\<forall>ps. \<exists>res. mongod_socket m ps d = Inr res"
    and "map_of d ''molecule_hash'' = Some h" and "map_of d ''modelchem'' = Some mo"
  shows "fst (try_body tb k f m) = None"
proof -
  from assms(4) obtain res where
    "mongod_socket m (pages_of (journal m @ [Call_result k])) d = Inr res" by blast
  with assms(1,2,3,5,6) show ?thesis
    by (simp add: try_body_def getitem_def)
qed

lemma try_body_store_raises:
  assumes "result_r f = Inr d" and "map_of d ''success'' = Some s" and "truthy s"
    and "\<forall>ps. mongod_socket m ps d = Inl e"
  shows "fst (try_body tb k f m) = Some e"
  using assms by (simp add: try_body_def getitem_def)

lemma try_body_no_hash:
  assumes "result_r f = Inr d" and "map_of d ''success'' = Some s" and "truthy s"
    and "\<forall>ps. \<exists>res. mongod_socket m ps d = Inr res"
    and "map_of d ''molecule_hash'' = None"
  shows "fst (try_body tb k f m) = Some (PyExc (tb 36) ''KeyError'' (quoted ''molecule_hash''))"
proof -
  from assms(4) obtain res where
    "mongod_socket m (pages_of (journal m @ [Call_result k])) d = Inr res" by blast
  with assms(1,2,3,5) show ?thesis
    by (simp add: try_body_def getitem_def)
qed

lemma try_body_no_modelchem:
  assumes "result_r f = Inr d" and "map_of d ''success'' = Some s" and "truthy s"
    and "\<forall>ps. \<exists>res. mongod_socket m ps d = Inr res"
    and "map_of d ''molecule_hash'' = Some h" and "map_of d ''modelchem'' = None"
  shows "fst (try_body tb k f m) = Some (PyExc (tb 36) ''KeyError'' (quoted ''modelchem''))"
proof -
  from assms(4) obtain res where
    "mongod_socket m (pages_of (journal m @ [Call_result k])) d = Inr res" by blast
  with assms(1,2,3,5,6) show ?thesis
    by (simp add: try_body_def getitem_def)
qed

lemma update_loop_errors_at:
  assumes d: "distinct (map fst items)"
    and r: "\<forall>p \<in> set items. \<exists>d. done_r (snd p) = Inr d"
    and k: "(k, f) \<in> set items" and fin: "finished f"
  shows "\<exists>m. mongod_socket m = mongod_socket n \<and>
           map_of (errors (snd (snd (update_loop tb items dk n)))) k =
             (case fst (try_body tb k f m) of
                None \<Rightarrow> map_of (errors n) k
              | Some e \<Rightarrow> Some (error_message e))"
proof -
  from k obtain pre rest where items: "items = pre @ (k, f) # rest"
    by (auto dest: split_list)
  from d items have kpre: "k \<notin> fst ` set pre" and krest: "k \<notin> fst ` set rest"
    by auto
  from r items have rpre: "\<forall>p \<in> set pre. \<exists>d. done_r (snd p) = Inr d" by simp
  obtain a b m where l: "update_loop tb pre dk n = (a, b, m)"
    by (cases "update_loop tb pre dk n")
  from update_loop_returns [OF rpre, of tb dk n] l have a: "a = None" by simp
  from update_loop_frame(2) [of tb pre dk n] l
  have mm: "mongod_socket m = mongod_socket n" by simp
  have "k \<notin> fst ` {p \<in> set pre. finished (snd p)}" using kpre by auto
  from update_loop_errors_other [OF this, of tb dk n] l
  have em: "map_of (errors m) k = map_of (errors n) k" by simp
  from fin have df: "done_r f = Inr True" by (simp add: finished_def)
  have whole: "update_loop tb items dk n = update_loop tb rest (b @ [k]) (try_except tb k f m)"
    by (simp add: items update_loop_append l a df)
  have "map_of (errors (snd (snd (update_loop tb items dk n)))) k =
          map_of (errors (try_except tb k f m)) k"
    unfolding whole using krest by (intro update_loop_errors_other) auto
  also have "\<dots> = (case fst (try_body tb k f m) of
                None \<Rightarrow> map_of (errors n) k
              | Some e \<Rightarrow> Some (error_message e))"
    by (simp add: try_except_errors update_conv' em split: option.splits)
  finally show ?thesis using mm by blast
qed

lemma update_errors_at:
  assumes d: "distinct (map fst (queue n))"
    and r: "\<forall>p \<in> set (queue n). \<exists>d. done_r (snd p) = Inr d"
    and k: "(k, f) \<in> set (queue n)" and fin: "finished f"
  shows "\<exists>m. mongod_socket m = mongod_socket n \<and>
           map_of (errors (snd (update tb n))) k =
             (case fst (try_body tb k f m) of
                None \<Rightarrow> map_of (errors n) k
              | Some e \<Rightarrow> Some (error_message e))"
  using update_loop_errors_at [OF d r k fin, of n tb "[]"] update_returns [OF d r, of tb]
  by simp

lemma finished_key_removed:
  assumes "distinct (map fst q)" and "(k, f) \<in> set q" and "finished f"
  shows "k \<notin> fst ` set (filter (\<lambda>p. \<not> finished (snd p)) q)"
proof
  assume "k \<in> fst ` set (filter (\<lambda>p. \<not> finished (snd p)) q)"
  then obtain f' where "(k, f') \<in> set q" "\<not> finished f'" by auto
  with assms(1,2) have "f' = f" by (metis eq_key_imp_eq_value)
  with assms(3) \<open>\<not> finished f'\<close> show False by simp
qed

lemma update_removes_finished:
  assumes d: "distinct (map fst (queue n))"
    and r: "\<forall>p \<in> set (queue n). \<exists>d. done_r (snd p) = Inr d"
    and k: "(k, f) \<in> set (queue n)" and fin: "finished f"
  shows "fst (update tb n) = None \<and> k \<notin> fst ` set (queue (snd (update tb n)))"
  using update_returns [OF d r, of tb] finished_key_removed [OF d k fin] by simp

lemma update_journal:
  assumes d: "distinct (map fst (queue n))"
    and r: "\<forall>p \<in> set (queue n). \<exists>d. done_r (snd p) = Inr d"
  shows "journal (snd (update tb n)) = journal n @ loop_calls (queue n)"
  using update_returns [OF d r, of tb] update_loop_returns [OF r, of tb "[]" n] by simp



lemma count_entry_calls_add_page:
  assumes "result_r f = Inr d" and "map_of d ''success'' = Some s" and "truthy s"
  shows "count_list (entry_calls k f) (Call_add_page k p) = (if p = d then 1 else 0)"
  using assms by (simp add: entry_calls_def)

subsection \<open>Finished entries with a success outcome\<close>

text \<open>
  Claim C1. For a finished entry with a success outcome (\<open>future.result()\<close> returns
  a dictionary whose \<open>success\<close> is true), in a pass whose \<open>future.done()\<close> checks
  return: \<open>update\<close> returns, makes exactly one \<open>add_page\<close> call for the entry, with
  that dictionary, and removes the key from the queue, whatever the store does. It
  leaves the error dictionary unchanged at that key when the forwarding has no defect:
  \<open>add_page\<close> returns (whatever value) and the dictionary has the \<open>molecule_hash\<close>
  and \<open>modelchem\<close> that the log line reads. A forwarding with a defect is the subject of
  the subsection on defects of the call into the store.
\<close>

theorem update_success:
  assumes "distinct (map fst (queue n))"
    and "\<forall>p \<in> set (queue n). \<exists>d. done_r (snd p) = Inr d"
    and "(k, f) \<in> set (queue n)" and "done_r f = Inr True"
    and "result_r f = Inr d" and "map_of d ''success'' = Some s" and "truthy s"
  shows "fst (update tb n) = None \<and>
         k \<notin> fst ` set (queue (snd (update tb n))) \<and>
         (\<forall>p. count_list (journal (snd (update tb n))) (Call_add_page k p) =
                count_list (journal n) (Call_add_page k p) + (if p = d then 1 else 0)) \<and>
         ((\<forall>ps. \<exists>res. mongod_socket n ps d = Inr res) \<and> map_of d ''molecule_hash'' \<noteq> None
            \<and> map_of d ''modelchem'' \<noteq> None \<longrightarrow>
            map_of (errors (snd (update tb n))) k = map_of (errors n) k)"
proof -
  from assms(4) have fin: "finished f" by (simp add: finished_def)
  note removed = update_removes_finished [OF assms(1,2,3) fin, of tb]
  from update_errors_at [OF assms(1,2,3) fin, of tb] obtain m where
    m: "mongod_socket m = mongod_socket n" and
    e: "map_of (errors (snd (update tb n))) k =
          (case fst (try_body tb k f m) of
             None \<Rightarrow> map_of (errors n) k
           | Some e \<Rightarrow> Some (error_message e))"
    by blast
  have unchanged: "map_of (errors (snd (update tb n))) k = map_of (errors n) k"
    if "\<forall>ps. \<exists>res. mongod_socket n ps d = Inr res" and "map_of d ''molecule_hash'' \<noteq> None"
      and "map_of d ''modelchem'' \<noteq> None"
  proof -
    from that(1) m have st: "\<forall>ps. \<exists>res. mongod_socket m ps d = Inr res" by simp
    from that(2) obtain h where h: "map_of d ''molecule_hash'' = Some h" by auto
    from that(3) obtain mo where mo: "map_of d ''modelchem'' = Some mo" by auto
    from try_body_success [OF assms(5,6,7) st h mo, of tb k] show ?thesis
      by (simp add: e)
  qed
  have "count_list (journal (snd (update tb n))) (Call_add_page k p) =
          count_list (journal n) (Call_add_page k p) + (if p = d then 1 else 0)" for p
    using count_loop_calls [OF assms(1,3) fin, of "Call_add_page k p"]
    by (simp add: update_journal [OF assms(1,2)] count_entry_calls_add_page [OF assms(5,6,7)])
  with removed unchanged show ?thesis by blast
qed

theorem update_success_witness:
  "distinct (map fst (queue nanny_mixed)) \<and>
   (''u'', Future (Inr True) (Inr page_ok)) \<in> set (queue nanny_mixed) \<and>
   map_of page_ok ''success'' = Some (PBool True) \<and>
   fst (update tb_src nanny_mixed) = None \<and>
   ''u'' \<notin> fst ` set (queue (snd (update tb_src nanny_mixed))) \<and>
   map_of (errors (snd (update tb_src nanny_mixed))) ''u'' = None \<and>
   count_list (journal (snd (update tb_src nanny_mixed))) (Call_add_page ''u'' page_ok) = 1"
proof -
  have d: "distinct (map fst (queue nanny_mixed))"
    and r: "\<forall>p \<in> set (queue nanny_mixed). \<exists>d. done_r (snd p) = Inr d"
    and k: "(''u'', Future (Inr True) (Inr page_ok)) \<in> set (queue nanny_mixed)"
    and st: "\<forall>ps. \<exists>res. mongod_socket nanny_mixed ps page_ok = Inr res"
    by (auto simp: nanny_mixed_def nanny0_def store_accepts_def)
  have f: "done_r (Future (Inr True) (Inr page_ok)) = Inr True"
    "result_r (Future (Inr True) (Inr page_ok)) = Inr page_ok"
    and s: "map_of page_ok ''success'' = Some (PBool True)" "truthy (PBool True)"
    and h: "map_of page_ok ''molecule_hash'' = Some (PStr ''h1'')"
    "map_of page_ok ''modelchem'' = Some (PStr ''scf'')"
    by (simp_all add: page_ok_def)
  have e: "map_of (errors nanny_mixed) ''u'' = None"
    and j: "journal nanny_mixed = []"
    by (simp_all add: nanny_mixed_def nanny0_def)
  note t = update_success [OF d r k f s, of tb_src]
  from t have c: "count_list (journal (snd (update tb_src nanny_mixed))) (Call_add_page ''u'' page_ok) =
      count_list (journal nanny_mixed) (Call_add_page ''u'' page_ok) + 1"
    by simp
  from t st h have u: "map_of (errors (snd (update tb_src nanny_mixed))) ''u''
      = map_of (errors nanny_mixed) ''u''"
    by simp
  from t have "fst (update tb_src nanny_mixed) = None"
    "''u'' \<notin> fst ` set (queue (snd (update tb_src nanny_mixed)))"
    by simp_all
  with c u d k s(1) e j show ?thesis by simp
qed

subsection \<open>Finished entries with a failure outcome\<close>




subsection \<open>Defects of the call into the store\<close>

text \<open>
  Claim C3 as stated fails for a store that rejects a page by returning false: the
  entry is removed, the value is written to the log and nothing is filed in the errors.
\<close>

theorem update_store_defect_counterexample:
  "(''u'', Future (Inr True) (Inr page_ok)) \<in> set (queue nanny_rejecting) \<and>
   map_of page_ok ''success'' = Some (PBool True) \<and>
   mongod_socket nanny_rejecting [] page_ok = Inr (PBool False) \<and>
   fst (update tb_src nanny_rejecting) = None \<and>
   queue (snd (update tb_src nanny_rejecting)) = [] \<and>
   errors (snd (update tb_src nanny_rejecting)) = [] \<and>
   logger (snd (update tb_src nanny_rejecting)) = [''MONGO ADD: (h1, scf) - False'']"
  by (simp add: update_def nanny_rejecting_def nanny0_def try_except_def try_body_def
      getitem_def except_clause_def page_ok_def store_rejects_def Let_def)

text \<open>
  Claim C3, amended. For a finished entry with a success outcome, when every
  \<open>future.done()\<close> check of the pass returns, \<open>update\<close> returns and removes the key.
  A defect of the forwarding that is an exception is caught and filed under the key as
  the traceback text, the type name, a colon and the text of the exception: the
  exception that \<open>add_page\<close> raises (a store out of reach, a page it refuses by
  raising), or the \<open>KeyError\<close> of the log line for a dictionary without
  \<open>molecule_hash\<close> or without \<open>modelchem\<close>. When \<open>add_page\<close> returns, whatever value
  it returns (false as well), and the dictionary has both fields, nothing is filed:
  the value is only written to the log.
\<close>

theorem update_store_defect:
  assumes "distinct (map fst (queue n))"
    and "\<forall>p \<in> set (queue n). \<exists>d. done_r (snd p) = Inr d"
    and "(k, f) \<in> set (queue n)" and "done_r f = Inr True"
    and "result_r f = Inr d" and "map_of d ''success'' = Some s" and "truthy s"
  shows "fst (update tb n) = None \<and>
         k \<notin> fst ` set (queue (snd (update tb n))) \<and>
         ((\<forall>ps. mongod_socket n ps d = Inl e) \<longrightarrow>
            map_of (errors (snd (update tb n))) k
              = Some (exc_tb e @ exc_type e @ '':'' @ exc_str e)) \<and>
         ((\<forall>ps. \<exists>res. mongod_socket n ps d = Inr res) \<and> map_of d ''molecule_hash'' = None \<longrightarrow>
            map_of (errors (snd (update tb n))) k
              = Some (tb 36 @ ''KeyError:'' @ quoted ''molecule_hash'')) \<and>
         ((\<forall>ps. \<exists>res. mongod_socket n ps d = Inr res) \<and> map_of d ''molecule_hash'' \<noteq> None
            \<and> map_of d ''modelchem'' = None \<longrightarrow>
            map_of (errors (snd (update tb n))) k
              = Some (tb 36 @ ''KeyError:'' @ quoted ''modelchem'')) \<and>
         ((\<forall>ps. \<exists>res. mongod_socket n ps d = Inr res) \<and> map_of d ''molecule_hash'' \<noteq> None
            \<and> map_of d ''modelchem'' \<noteq> None \<longrightarrow>
            map_of (errors (snd (update tb n))) k = map_of (errors n) k)"
proof -
  from assms(4) have fin: "finished f" by (simp add: finished_def)
  note removed = update_removes_finished [OF assms(1,2,3) fin, of tb]
  from update_errors_at [OF assms(1,2,3) fin, of tb] obtain m where
    m: "mongod_socket m = mongod_socket n" and
    e: "map_of (errors (snd (update tb n))) k =
          (case fst (try_body tb k f m) of
             None \<Rightarrow> map_of (errors n) k
           | Some e \<Rightarrow> Some (error_message e))"
    by blast
  have raises: "map_of (errors (snd (update tb n))) k
              = Some (exc_tb e @ exc_type e @ '':'' @ exc_str e)"
    if "\<forall>ps. mongod_socket n ps d = Inl e"
  proof -
    from that m have "\<forall>ps. mongod_socket m ps d = Inl e" by simp
    from try_body_store_raises [OF assms(5,6,7) this, of tb k] show ?thesis
      by (simp add: e error_message_def)
  qed
  have no_hash: "map_of (errors (snd (update tb n))) k
              = Some (tb 36 @ ''KeyError:'' @ quoted ''molecule_hash'')"
    if "\<forall>ps. \<exists>res. mongod_socket n ps d = Inr res" and "map_of d ''molecule_hash'' = None"
  proof -
    from that(1) m have "\<forall>ps. \<exists>res. mongod_socket m ps d = Inr res" by simp
    from try_body_no_hash [OF assms(5,6,7) this that(2), of tb k] show ?thesis
      by (simp add: e error_message_def)
  qed
  have no_modelchem: "map_of (errors (snd (update tb n))) k
              = Some (tb 36 @ ''KeyError:'' @ quoted ''modelchem'')"
    if "\<forall>ps. \<exists>res. mongod_socket n ps d = Inr res" and "map_of d ''molecule_hash'' \<noteq> None"
      and "map_of d ''modelchem'' = None"
  proof -
    from that(1) m have st: "\<forall>ps. \<exists>res. mongod_socket m ps d = Inr res" by simp
    from that(2) obtain h where "map_of d ''molecule_hash'' = Some h" by auto
    from try_body_no_modelchem [OF assms(5,6,7) st this that(3), of tb k] show ?thesis
      by (simp add: e error_message_def)
  qed
  have returns: "map_of (errors (snd (update tb n))) k = map_of (errors n) k"
    if "\<forall>ps. \<exists>res. mongod_socket n ps d = Inr res" and "map_of d ''molecule_hash'' \<noteq> None"
      and "map_of d ''modelchem'' \<noteq> None"
  proof -
    from that(1) m have st: "\<forall>ps. \<exists>res. mongod_socket m ps d = Inr res" by simp
    from that(2) obtain h where h: "map_of d ''molecule_hash'' = Some h" by auto
    from that(3) obtain mo where mo: "map_of d ''modelchem'' = Some mo" by auto
    from try_body_success [OF assms(5,6,7) st h mo, of tb k] show ?thesis
      by (simp add: e)
  qed
  from removed raises no_hash no_modelchem returns show ?thesis by blast
qed

theorem update_store_defect_witness:
  "(''u'', Future (Inr True) (Inr page_ok)) \<in> set (queue nanny_store_down) \<and>
   mongod_socket nanny_store_down [] page_ok = Inl connection_error \<and>
   fst (update tb_src nanny_store_down) = None \<and>
   ''u'' \<notin> fst ` set (queue (snd (update tb_src nanny_store_down))) \<and>
   map_of (errors (snd (update tb_src nanny_store_down))) ''u''
     = Some (exc_tb connection_error @ ''ConnectionError:store unreachable'') \<and>
   (''u'', Future (Inr True) (Inr page_no_hash)) \<in> set (queue nanny_no_hash) \<and>
   map_of page_no_hash ''molecule_hash'' = None \<and>
   fst (update tb_src nanny_no_hash) = None \<and>
   map_of (errors (snd (update tb_src nanny_no_hash))) ''u''
     = Some (tb_src 36 @ ''KeyError:'' @ quoted ''molecule_hash'')"
proof -
  have d: "distinct (map fst (queue nanny_store_down))"
    and r: "\<forall>p \<in> set (queue nanny_store_down). \<exists>d. done_r (snd p) = Inr d"
    and k: "(''u'', Future (Inr True) (Inr page_ok)) \<in> set (queue nanny_store_down)"
    and st: "\<forall>ps. mongod_socket nanny_store_down ps page_ok = Inl connection_error"
    by (auto simp: nanny_store_down_def nanny0_def store_down_def)
  have f: "done_r (Future (Inr True) (Inr page_ok)) = Inr True"
    "result_r (Future (Inr True) (Inr page_ok)) = Inr page_ok"
    and s: "map_of page_ok ''success'' = Some (PBool True)" "truthy (PBool True)"
    by (simp_all add: page_ok_def)
  have d': "distinct (map fst (queue nanny_no_hash))"
    and r': "\<forall>p \<in> set (queue nanny_no_hash). \<exists>d. done_r (snd p) = Inr d"
    and k': "(''u'', Future (Inr True) (Inr page_no_hash)) \<in> set (queue nanny_no_hash)"
    and st': "\<forall>ps. \<exists>res. mongod_socket nanny_no_hash ps page_no_hash = Inr res"
    by (auto simp: nanny_no_hash_def nanny0_def store_accepts_def)
  have f': "done_r (Future (Inr True) (Inr page_no_hash)) = Inr True"
    "result_r (Future (Inr True) (Inr page_no_hash)) = Inr page_no_hash"
    and s': "map_of page_no_hash ''success'' = Some (PBool True)"
    and h': "map_of page_no_hash ''molecule_hash'' = None"
    by (simp_all add: page_no_hash_def)
  note t = update_store_defect [OF d r k f s, of tb_src connection_error]
  note t' = update_store_defect [OF d' r' k' f' s' s(2), of tb_src]
  from t st have a: "fst (update tb_src nanny_store_down) = None"
    "''u'' \<notin> fst ` set (queue (snd (update tb_src nanny_store_down)))"
    "map_of (errors (snd (update tb_src nanny_store_down))) ''u''
       = Some (exc_tb connection_error @ exc_type connection_error @ '':''
               @ exc_str connection_error)"
    by blast+
  from t' st' h' have b: "fst (update tb_src nanny_no_hash) = None"
    "map_of (errors (snd (update tb_src nanny_no_hash))) ''u''
       = Some (tb_src 36 @ ''KeyError:'' @ quoted ''molecule_hash'')"
    by blast+
  from a(3) have a3: "map_of (errors (snd (update tb_src nanny_store_down))) ''u''
     = Some (exc_tb connection_error @ ''ConnectionError:store unreachable'')"
    by (simp add: connection_error_def)
  from st have "mongod_socket nanny_store_down [] page_ok = Inl connection_error" by blast
  with k k' h' a(1,2) a3 b show ?thesis by simp
qed

subsection \<open>\<open>post\<close>\<close>

lemma update_fresh: "k \<notin> fst ` set q \<Longrightarrow> AList.update k v q = q @ [(k, v)]"
  by (induction q) auto

lemma post_loop_append:
  "post_loop tb cs sub prog (xs @ ys) r n =
     (case post_loop tb cs sub prog xs r n of
        (None, r', n') \<Rightarrow> post_loop tb cs sub prog ys r' n'
      | (Some e, r', n') \<Rightarrow> (Some e, r', n'))"
  by (induction tb cs sub prog xs r n rule: post_loop.induct)
     (simp_all add: Let_def split: option.splits sum.splits prod.splits)

lemma draws_Suc:
  "uuid4_r m = uuid4_r n \<Longrightarrow> uuid_drawn m = Suc (uuid_drawn n) \<Longrightarrow>
   draws n (Suc k) = uuid4_r n (uuid_drawn n) # draws m k"
  by (simp add: draws_def upt_rec)

lemma post_loop_returns:
  assumes "prog \<in> set cs"
    and "map (sub prog) (task_specs tasks) = map Inr futs"
    and "inj_on (uuid4_r n) {uuid_drawn n ..< uuid_drawn n + length futs}"
    and "\<forall>i \<in> {uuid_drawn n ..< uuid_drawn n + length futs}. uuid4_r n i \<notin> fst ` set (queue n)"
  shows "fst (post_loop tb cs sub prog tasks r n) = None \<and>
         ret_error (fst (snd (post_loop tb cs sub prog tasks r n)))
           = ret_error r @ marker_messages tasks \<and>
         ret_nanny_id (fst (snd (post_loop tb cs sub prog tasks r n)))
           = ret_nanny_id r @ draws n (length futs) \<and>
         ret_success (fst (snd (post_loop tb cs sub prog tasks r n))) = ret_success r \<and>
         queue (snd (snd (post_loop tb cs sub prog tasks r n)))
           = queue n @ zip (draws n (length futs)) futs \<and>
         journal (snd (snd (post_loop tb cs sub prog tasks r n)))
           = journal n @ map (Call_submit prog) (task_specs tasks) \<and>
         errors (snd (snd (post_loop tb cs sub prog tasks r n))) = errors n"
  using assms(2,3,4)
proof (induction tasks arbitrary: r n futs)
  case Nil
  then show ?case by (simp add: task_specs_def marker_messages_def map_filter_simps draws_def)
next
  case (Cons task tasks)
  show ?case
  proof (cases "map_of task ''internal_error''")
    case (Some msg)
    with Cons.prems(1) have "map (sub prog) (task_specs tasks) = map Inr futs"
      by (simp add: task_specs_def)
    from Cons.IH [OF this Cons.prems(2,3), of "r\<lparr>ret_error := ret_error r @ [msg]\<rparr>"]
    show ?thesis
      using Some by (simp add: task_specs_def marker_messages_def map_filter_simps)
  next
    case None
    with Cons.prems(1) obtain fut futs' where futs: "futs = fut # futs'"
      and sub: "sub prog task = Inr fut"
      and rest: "map (sub prog) (task_specs tasks) = map Inr futs'"
      by (cases futs) (auto simp: task_specs_def)
    let ?c = "uuid_drawn n"
    let ?uid = "uuid4_r n ?c"
    let ?n1 = "n\<lparr>journal := journal n @ [Call_submit prog task]\<rparr>"
    let ?n2 = "snd (add_future fut ?n1)"
    let ?r2 = "r\<lparr>ret_nanny_id := ret_nanny_id r @ [?uid]\<rparr>"
    have ids: "draws n (length futs) = ?uid # draws ?n2 (length futs')"
      unfolding futs by (simp add: draws_Suc add_future_fields)
    from Cons.prems(3) have "?uid \<notin> fst ` set (queue n)"
      by (simp add: futs)
    then have q2: "queue ?n2 = queue n @ [(?uid, fut)]"
      by (simp add: add_future_fields update_fresh)
    have j2: "journal ?n2 = journal n @ [Call_submit prog task]"
      and e2: "errors ?n2 = errors n"
      by (simp_all add: add_future_fields)
    have inj2: "inj_on (uuid4_r ?n2) {uuid_drawn ?n2 ..< uuid_drawn ?n2 + length futs'}"
      using Cons.prems(2) by (auto simp: add_future_fields futs intro: inj_on_subset)
    have fresh2: "\<forall>i \<in> {uuid_drawn ?n2 ..< uuid_drawn ?n2 + length futs'}.
                    uuid4_r ?n2 i \<notin> fst ` set (queue ?n2)"
    proof
      fix i assume i: "i \<in> {uuid_drawn ?n2 ..< uuid_drawn ?n2 + length futs'}"
      then have i': "i \<in> {?c ..< ?c + length futs}" and ne: "i \<noteq> ?c"
        by (simp_all add: add_future_fields futs)
      from Cons.prems(3) i' have old: "uuid4_r n i \<notin> fst ` set (queue n)" by blast
      have "?c \<in> {?c ..< ?c + length futs}" by (simp add: futs)
      with Cons.prems(2) i' ne have "uuid4_r n i \<noteq> ?uid"
        by (auto dest: inj_onD)
      with old show "uuid4_r ?n2 i \<notin> fst ` set (queue ?n2)"
        by (simp add: add_future_fields dom_update)
    qed
    have step: "post_loop tb cs sub prog (task # tasks) r n =
                  post_loop tb cs sub prog tasks ?r2 ?n2"
      using None assms(1) sub by (simp add: Let_def split_beta add_future_fields)
    have specs: "task_specs (task # tasks) = task # task_specs tasks"
      and msgs: "marker_messages (task # tasks) = marker_messages tasks"
      using None by (simp_all add: task_specs_def marker_messages_def map_filter_simps)
    from Cons.IH [OF rest inj2 fresh2, of ?r2]
    show ?thesis
      unfolding step ids specs msgs
      by (simp add: q2 j2 e2 futs)
  qed
qed



text \<open>
  Claim C7 as stated fails: when \<open>dask.submit\<close> raises for a task that is not an
  error marker, \<open>post\<close> raises that exception instead of writing a response with an
  entry in its error list.
\<close>

theorem post_submit_raises_counterexample:
  "map_of task_a ''internal_error'' = None \<and>
   submit_fails ''psi4'' task_a = Inl backend_error \<and>
   fst (post tb_src computers_src submit_fails (Inr ([task_a], ''psi4'')) nanny0) = Inl backend_error"
  by (simp add: post_def task_a_def computers_src_def submit_fails_def Let_def)

text \<open>
  Claim C7, amended. When \<open>dask.submit\<close> raises for a task of the batch, nothing in
  \<open>post\<close> catches the exception: \<open>post\<close> raises it and writes no response, so the
  failure is in no error list. The items after that task are not processed; the tasks
  before it have been submitted and stay in the queue, and the task itself is not
  registered.
\<close>

theorem post_submit_raises:
  assumes "program \<in> set computers"
    and "map (submit_r program) (task_specs pre) = map Inr futs"
    and "inj_on (uuid4_r n) {uuid_drawn n ..< uuid_drawn n + length futs}"
    and "\<forall>i \<in> {uuid_drawn n ..< uuid_drawn n + length futs}. uuid4_r n i \<notin> fst ` set (queue n)"
    and "map_of task ''internal_error'' = None"
    and "submit_r program task = Inl e"
  shows "fst (post tb computers submit_r (Inr (pre @ task # rest, program)) n) = Inl e \<and>
         queue (snd (post tb computers submit_r (Inr (pre @ task # rest, program)) n))
           = queue n @ zip (draws n (length futs)) futs \<and>
         journal (snd (post tb computers submit_r (Inr (pre @ task # rest, program)) n))
           = journal n @ map (Call_submit program) (task_specs pre) @ [Call_submit program task]"
proof -
  let ?r0 = "\<lparr>ret_error = [], ret_nanny_id = [], ret_success = None\<rparr>"
  obtain a r n' where l: "post_loop tb computers submit_r program pre ?r0 n = (a, r, n')"
    by (cases "post_loop tb computers submit_r program pre ?r0 n")
  from post_loop_returns [where sub = submit_r and prog = program, OF assms(1,2,3,4), of tb ?r0] l
  have a: "a = None"
    and q: "queue n' = queue n @ zip (draws n (length futs)) futs"
    and j: "journal n' = journal n @ map (Call_submit program) (task_specs pre)"
    by simp_all
  have "post_loop tb computers submit_r program (pre @ task # rest) ?r0 n =
          (Some e, r, n'\<lparr>journal := journal n' @ [Call_submit program task]\<rparr>)"
    using assms(1,5,6) by (simp add: post_loop_append l a)
  then have "post tb computers submit_r (Inr (pre @ task # rest, program)) n =
          (Inl e, n'\<lparr>journal := journal n' @ [Call_submit program task]\<rparr>)"
    by (simp add: post_def)
  with q j show ?thesis by simp
qed

theorem post_submit_raises_witness:
  "submit_picky ''psi4'' task_a = Inr pending \<and>
   submit_picky ''psi4'' task_b = Inl backend_error \<and>
   fst (post tb_src computers_src submit_picky (Inr ([task_a, task_b, marker_bad], ''psi4'')) nanny0)
     = Inl backend_error \<and>
   queue (snd (post tb_src computers_src submit_picky (Inr ([task_a, task_b, marker_bad], ''psi4'')) nanny0))
     = [(''u'', pending)] \<and>
   journal (snd (post tb_src computers_src submit_picky (Inr ([task_a, task_b, marker_bad], ''psi4'')) nanny0))
     = [Call_submit ''psi4'' task_a, Call_submit ''psi4'' task_b]"
proof -
  have specs: "task_specs [task_a] = [task_a]"
    by (simp add: task_specs_def task_a_def)
  have ne: "task_a \<noteq> task_b" by (simp add: task_a_def task_b_def)
  have c: "''psi4'' \<in> set computers_src" by (simp add: computers_src_def)
  have s: "map (submit_picky ''psi4'') (task_specs [task_a]) = map Inr [pending]"
    using ne by (simp add: specs submit_picky_def)
  have i: "inj_on (uuid4_r nanny0) {uuid_drawn nanny0 ..< uuid_drawn nanny0 + length [pending]}"
    by (simp add: nanny0_def inj_uuid_src)
  have f: "\<forall>i \<in> {uuid_drawn nanny0 ..< uuid_drawn nanny0 + length [pending]}.
             uuid4_r nanny0 i \<notin> fst ` set (queue nanny0)"
    by (simp add: nanny0_def)
  have m: "map_of task_b ''internal_error'' = None" by (simp add: task_b_def)
  have e: "submit_picky ''psi4'' task_b = Inl backend_error" by (simp add: submit_picky_def)
  have a: "submit_picky ''psi4'' task_a = Inr pending" using ne by (simp add: submit_picky_def)
  have d: "draws nanny0 (length [pending]) = [''u'']"
    by (simp add: draws_def nanny0_def uuid_src_def)
  have q: "queue nanny0 = []" "journal nanny0 = []"
    by (simp_all add: nanny0_def)
  from post_submit_raises [where submit_r = submit_picky and program = "''psi4''",
      OF c s i f m e, of tb_src "[marker_bad]", unfolded d specs q] a e
  show ?thesis by simp
qed

end
